theory Spec2Isabelle
  imports Main "HOL-Library.Multiset"
begin

unbundle bit_operations_syntax

section \<open>Frame table and second-chance eviction (vm/frame.c)\<close>

subsection \<open>Data\<close>

text \<open>
  \<^verbatim>\<open>struct frame\<close>: the page directory of the owning thread, the kernel address
  of the physical page and the user virtual page mapped onto it. Addresses and
  page directories are opaque values, modelled as natural numbers.
\<close>

record frame =
  pagedir :: nat
  addr :: nat
  upage :: nat

text \<open>A page-table entry is named by its page directory and user page.\<close>

definition pte :: "frame \<Rightarrow> nat \<times> nat" where
  "pte f = (pagedir f, upage f)"

text \<open>
  The state the frame table reads and writes. \<open>frame_table\<close> is the source's static
  list, in list order (head first). The other fields are the collaborators' state:
  \<^item> \<open>pool\<close>: the free pages of the physical allocator's user pool;
  \<^item> \<open>palloc_log\<close>: the requests and releases the allocator has received, in order
    (a record of the run, which no operation reads);
  \<^item> \<open>accessed\<close>, \<open>dirty\<close>, \<open>present\<close>: the bits of the page-table entries;
  \<^item> \<open>page_valid\<close>, \<open>page_swap_idx\<close>: the supplemental page entries found by
    \<^verbatim>\<open>page_find\<close>, keyed by user page;
  \<^item> \<open>swap\<close>: the pages written to the swap store, slot \<open>i\<close> at position \<open>i\<close>;
  \<^item> \<open>cur_pagedir\<close>: \<^verbatim>\<open>thread_current ()->pagedir\<close>.
\<close>

datatype palloc_call = Get_page nat "nat option" | Free_page nat

record vm =
  frame_table :: "frame list"
  pool :: "nat list"
  palloc_log :: "palloc_call list"
  accessed :: "nat \<times> nat \<Rightarrow> bool"
  dirty :: "nat \<times> nat \<Rightarrow> bool"
  present :: "nat \<times> nat \<Rightarrow> bool"
  page_valid :: "nat \<Rightarrow> bool"
  page_swap_idx :: "nat \<Rightarrow> nat"
  swap :: "nat list"
  cur_pagedir :: nat

text \<open>
  What the C code does outside its defined behaviour: \<open>Empty_frame_table\<close> is
  \<^verbatim>\<open>list_entry\<close> applied to the tail sentinel of an empty frame table,
  \<open>Null_inode\<close> a null \<^verbatim>\<open>struct inode *\<close> handed to the inode manager,
  \<open>Assertion_failed\<close> a failed \<^verbatim>\<open>ASSERT\<close>.
\<close>

datatype fault = Empty_frame_table | Null_inode | Assertion_failed

subsection \<open>Collaborators\<close>

text \<open>\<^verbatim>\<open>enum palloc_flags\<close>: the bit of the user pool.\<close>

definition PAL_USER :: nat where
  "PAL_USER = 4"

text \<open>
  Modelled from the spec: the physical allocator, \<^verbatim>\<open>get_page(flags) -> address|null\<close>
  and \<^verbatim>\<open>free_page(address)\<close> (palloc.c is not part of the sources). The user pool is
  the list of its free pages; a request takes the first one and reports exhaustion
  on the empty pool, a release puts the page back. The flags do not change which
  page is handed out. Each call is entered in the log, a request with its flags and its
  result.
\<close>

definition palloc_get_page :: "nat \<Rightarrow> vm \<Rightarrow> nat option \<times> vm" where
  "palloc_get_page flags s =
     (case pool s of
        [] \<Rightarrow> (None, s\<lparr>palloc_log := palloc_log s @ [Get_page flags None]\<rparr>)
      | p # ps \<Rightarrow>
          (Some p, s\<lparr>pool := ps, palloc_log := palloc_log s @ [Get_page flags (Some p)]\<rparr>))"

definition palloc_free_page :: "nat \<Rightarrow> vm \<Rightarrow> vm" where
  "palloc_free_page p s = s\<lparr>pool := p # pool s, palloc_log := palloc_log s @ [Free_page p]\<rparr>"

text \<open>
  Modelled from the spec: the page-table collaborator, \<^verbatim>\<open>is_accessed\<close>,
  \<^verbatim>\<open>clear_accessed\<close>, \<^verbatim>\<open>is_dirty\<close>, \<^verbatim>\<open>unmap\<close> (pagedir.c is not part of the
  sources).
\<close>

definition pagedir_is_accessed :: "nat \<Rightarrow> nat \<Rightarrow> vm \<Rightarrow> bool" where
  "pagedir_is_accessed pd up s = accessed s (pd, up)"

definition pagedir_set_accessed :: "nat \<Rightarrow> nat \<Rightarrow> bool \<Rightarrow> vm \<Rightarrow> vm" where
  "pagedir_set_accessed pd up b s = s\<lparr>accessed := (accessed s)((pd, up) := b)\<rparr>"

definition pagedir_is_dirty :: "nat \<Rightarrow> nat \<Rightarrow> vm \<Rightarrow> bool" where
  "pagedir_is_dirty pd up s = dirty s (pd, up)"

definition pagedir_clear_page :: "nat \<Rightarrow> nat \<Rightarrow> vm \<Rightarrow> vm" where
  "pagedir_clear_page pd up s = s\<lparr>present := (present s)((pd, up) := False)\<rparr>"

text \<open>
  Modelled from the spec: the swap store, \<^verbatim>\<open>write_out(physical_page) -> slot_id\<close>
  (swap.c is not part of the sources). The page goes to the next unused slot.
\<close>

definition swap_out :: "nat \<Rightarrow> vm \<Rightarrow> nat \<times> vm" where
  "swap_out p s = (length (swap s), s\<lparr>swap := swap s @ [p]\<rparr>)"

text \<open>
  Modelled from the spec: the metadata of a virtual page, "marked invalid" with the
  swap slot "recorded" (page.c is not part of the sources). The two assignments
  through the pointer that \<^verbatim>\<open>page_find (frame->upage)\<close> returns.
\<close>

definition page_set_swapped :: "nat \<Rightarrow> nat \<Rightarrow> vm \<Rightarrow> vm" where
  "page_set_swapped up slot s =
     s\<lparr>page_valid := (page_valid s)(up := False),
       page_swap_idx := (page_swap_idx s)(up := slot)\<rparr>"

subsection \<open>The operations of the source\<close>

text \<open>\<^verbatim>\<open>frame_init\<close>: \<^verbatim>\<open>list_init (&frame_table)\<close>.\<close>

definition frame_init :: "vm \<Rightarrow> vm" where
  "frame_init s = s\<lparr>frame_table := []\<rparr>"

text \<open>\<^verbatim>\<open>list_remove (e)\<close> for the element at position \<open>i\<close>.\<close>

definition list_remove :: "nat \<Rightarrow> 'a list \<Rightarrow> 'a list" where
  "list_remove i xs = take i xs @ drop (Suc i) xs"

text \<open>
  The \<^verbatim>\<open>while (true)\<close> loop of \<^verbatim>\<open>frame_evict\<close>, up to the choice of the victim.
  \<open>i\<close> is the position of \<^verbatim>\<open>e\<close> in the list and \<open>seen\<close> the positions
  inspected so far, in order (a record of the run, which the loop does not read).
  A frame whose accessed bit is set has it cleared, and \<^verbatim>\<open>e\<close> moves to the next
  element, from the last one back to the first. The loop ends at the first frame
  found with a clear bit. On the empty list \<^verbatim>\<open>list_begin\<close> is the tail sentinel,
  which is no frame.
\<close>

function second_chance :: "vm \<Rightarrow> nat \<Rightarrow> nat list \<Rightarrow> (nat \<times> nat list \<times> vm) option" where
  "second_chance s i seen =
     (if length (frame_table s) \<le> i then None
      else if pagedir_is_accessed (pagedir (frame_table s ! i)) (upage (frame_table s ! i)) s
        then second_chance
               (pagedir_set_accessed (pagedir (frame_table s ! i))
                  (upage (frame_table s ! i)) False s)
               (if Suc i = length (frame_table s) then 0 else Suc i) (seen @ [i])
        else Some (i, seen @ [i], s))"
  by pat_completeness auto

text \<open>
  The number of page-table entries of the table whose accessed bit is set: each turn of the
  loop that does not end it clears one, which is why the loop ends.
\<close>

definition set_bits :: "vm \<Rightarrow> nat" where
  "set_bits s = length (filter (accessed s) (remdups (map pte (frame_table s))))"

text \<open>
  \<^verbatim>\<open>frame_evict\<close>, in two parts: \<open>evict_scan\<close> is the loop entered with
  \<^verbatim>\<open>e = list_begin (&frame_table)\<close>, \<open>evict_victim\<close> the branch that ends it. For the
  victim (\<open>evict_reclaim\<close>): if its page is dirty, the page entry is marked invalid
  and given the slot that \<^verbatim>\<open>swap_out\<close> returns; then the frame leaves the list,
  the page is unmapped and given back to the allocator. The result is a fresh
  request to the allocator.
\<close>

definition evict_reclaim :: "nat \<Rightarrow> vm \<Rightarrow> vm" where
  "evict_reclaim i s =
     (let f = frame_table s ! i;
          s1 = (if pagedir_is_dirty (pagedir f) (upage f) s
                then (case swap_out (addr f) s of
                        (slot, s') \<Rightarrow> page_set_swapped (upage f) slot s')
                else s);
          s2 = s1\<lparr>frame_table := list_remove i (frame_table s1)\<rparr>;
          s3 = pagedir_clear_page (pagedir f) (upage f) s2
      in palloc_free_page (addr f) s3)"

definition evict_victim :: "nat \<Rightarrow> nat \<Rightarrow> vm \<Rightarrow> nat option \<times> vm" where
  "evict_victim flags i s = palloc_get_page (PAL_USER OR flags) (evict_reclaim i s)"

definition evict_scan :: "vm \<Rightarrow> (nat \<times> nat list \<times> vm) option" where
  "evict_scan s = second_chance s 0 []"

definition frame_evict :: "nat \<Rightarrow> vm \<Rightarrow> fault + (nat option \<times> vm)" where
  "frame_evict flags s =
     (case evict_scan s of
        None \<Rightarrow> Inl Empty_frame_table
      | Some (i, seen, s1) \<Rightarrow> Inr (evict_victim flags i s1))"

text \<open>
  \<^verbatim>\<open>frame_alloc\<close>: a request to the allocator and, when it returns null, the result
  of \<^verbatim>\<open>frame_evict\<close>; a page obtained either way gets a new frame for the running
  thread's page directory, appended to the list.
\<close>

definition frame_push :: "nat \<Rightarrow> nat option \<times> vm \<Rightarrow> nat option \<times> vm" where
  "frame_push up r =
     (case r of
        (None, s) \<Rightarrow> (None, s)
      | (Some page, s) \<Rightarrow>
          (Some page,
           s\<lparr>frame_table :=
               frame_table s @ [\<lparr>pagedir = cur_pagedir s, addr = page, upage = up\<rparr>]\<rparr>))"

definition frame_alloc :: "nat \<Rightarrow> nat \<Rightarrow> vm \<Rightarrow> fault + (nat option \<times> vm)" where
  "frame_alloc up flags s =
     (case palloc_get_page (PAL_USER OR flags) s of
        (None, s1) \<Rightarrow>
          (case frame_evict flags s1 of
             Inl e \<Rightarrow> Inl e
           | Inr r \<Rightarrow> Inr (frame_push up r))
      | (Some page, s1) \<Rightarrow> Inr (frame_push up (Some page, s1)))"

text \<open>
  \<^verbatim>\<open>frame_free\<close>: the first frame of the list with the given address is removed and
  its page given back; no such frame, nothing happens.
\<close>

fun find_frame :: "nat \<Rightarrow> frame list \<Rightarrow> nat option" where
  "find_frame page [] = None"
| "find_frame page (f # fs) =
     (if addr f = page then Some 0 else map_option Suc (find_frame page fs))"

definition frame_free :: "nat \<Rightarrow> vm \<Rightarrow> vm" where
  "frame_free page s =
     (case find_frame page (frame_table s) of
        None \<Rightarrow> s
      | Some i \<Rightarrow>
          palloc_free_page (addr (frame_table s ! i))
            (s\<lparr>frame_table := list_remove i (frame_table s)\<rparr>))"

subsection \<open>Sequences of operations\<close>

text \<open>
  The calls a client of the frame table can make, and a run of them from a state. A run
  ends at the first call that leaves defined behaviour, as the kernel would.
\<close>

datatype frame_op = Alloc nat nat | Free nat | Evict nat

fun apply_op :: "frame_op \<Rightarrow> vm \<Rightarrow> fault + vm" where
  "apply_op (Alloc up flags) s =
     (case frame_alloc up flags s of Inl e \<Rightarrow> Inl e | Inr (page, s') \<Rightarrow> Inr s')"
| "apply_op (Free page) s = Inr (frame_free page s)"
| "apply_op (Evict flags) s =
     (case frame_evict flags s of Inl e \<Rightarrow> Inl e | Inr (page, s') \<Rightarrow> Inr s')"

fun apply_ops :: "frame_op list \<Rightarrow> vm \<Rightarrow> fault + vm" where
  "apply_ops [] s = Inr s"
| "apply_ops (x # xs) s =
     (case apply_op x s of Inl e \<Rightarrow> Inl e | Inr s' \<Rightarrow> apply_ops xs s')"

text \<open>
  \<^verbatim>\<open>frame_evict\<close> twice in a row, from the same caller; the result is the frame table
  left behind.
\<close>

definition evict_twice :: "nat \<Rightarrow> vm \<Rightarrow> fault + frame list" where
  "evict_twice flags s =
     (case frame_evict flags s of
        Inl e \<Rightarrow> Inl e
      | Inr (page, s1) \<Rightarrow>
          (case frame_evict flags s1 of
             Inl e \<Rightarrow> Inl e
           | Inr (page', s2) \<Rightarrow> Inr (frame_table s2)))"

subsection \<open>Notions of the specification\<close>

text \<open>
  The first frame, in list order, whose accessed bit is clear: the number of leading
  frames whose bit is set.
\<close>

definition first_clear :: "vm \<Rightarrow> nat" where
  "first_clear s = length (takeWhile (\<lambda>f. accessed s (pte f)) (frame_table s))"

text \<open>
  The accessed bit belongs to the page-table entry, which two frames may share. The bit
  of the frame at position \<open>k\<close> is still set when a scan from the head reaches it if it
  is set at the call and no earlier frame of the table has the same entry. \<open>scan_stop\<close>
  is the first position where this fails, \<open>victim\<close> the frame there, and \<open>scanned j\<close>
  the state with the bits of the first \<open>j\<close> frames cleared.
\<close>

definition reached_set :: "vm \<Rightarrow> nat \<Rightarrow> bool" where
  "reached_set s k \<longleftrightarrow>
     accessed s (pte (frame_table s ! k))
     \<and> pte (frame_table s ! k) \<notin> pte ` set (take k (frame_table s))"

definition scan_stop :: "vm \<Rightarrow> nat" where
  "scan_stop s = length (takeWhile (reached_set s) [0..<length (frame_table s)])"

definition victim :: "vm \<Rightarrow> frame" where
  "victim s = frame_table s ! scan_stop s"

definition scanned :: "nat \<Rightarrow> vm \<Rightarrow> vm" where
  "scanned j s =
     s\<lparr>accessed := (\<lambda>k. accessed s k \<and> k \<notin> pte ` set (take j (frame_table s)))\<rparr>"

text \<open>
  The allocator never hands out a page that is in use: no page is twice in the frame
  table or twice in the pool, and none is in both.
\<close>

definition frame_inv :: "vm \<Rightarrow> bool" where
  "frame_inv s \<longleftrightarrow>
     distinct (map addr (frame_table s)) \<and> distinct (pool s)
     \<and> set (pool s) \<inter> addr ` set (frame_table s) = {}"

text \<open>A page in the caller's hands: neither free nor in the frame table.\<close>

definition held :: "nat option \<times> vm \<Rightarrow> bool" where
  "held r \<longleftrightarrow>
     (case r of
        (None, s) \<Rightarrow> frame_inv s
      | (Some page, s) \<Rightarrow>
          frame_inv s \<and> page \<notin> set (pool s) \<and> page \<notin> addr ` set (frame_table s))"

text \<open>
  The eviction as the specification words it, to compare with \<open>frame_evict\<close>: the scan
  starts at a cursor that is part of the state, and the position reached is the cursor of
  the next call. After the victim leaves the list the cursor is on the record that
  followed it, the first record when the victim was the last.
\<close>

definition clock_evict :: "nat \<Rightarrow> nat \<times> vm \<Rightarrow> fault + (nat option \<times> nat \<times> vm)" where
  "clock_evict flags cs =
     (case cs of (cursor, s) \<Rightarrow>
        (case second_chance s cursor [] of
           None \<Rightarrow> Inl Empty_frame_table
         | Some (i, seen, s1) \<Rightarrow>
             (case evict_victim flags i s1 of
                (page, s') \<Rightarrow>
                  Inr (page, if Suc i = length (frame_table s1) then 0 else i, s'))))"

definition clock_evict_twice :: "nat \<Rightarrow> vm \<Rightarrow> fault + frame list" where
  "clock_evict_twice flags s =
     (case clock_evict flags (0, s) of
        Inl e \<Rightarrow> Inl e
      | Inr (page, cs1) \<Rightarrow>
          (case clock_evict flags cs1 of
             Inl e \<Rightarrow> Inl e
           | Inr (page', cursor, s2) \<Rightarrow> Inr (frame_table s2)))"

subsection \<open>Concrete states\<close>

text \<open>
  A state from its frame table, its free pages and the page-table entries whose accessed
  and dirty bits are set. \<open>vm3\<close> is the scenario of the specification: three frames, the
  first accessed, the second dirty, no free page. \<open>vm4\<close> has four frames, the first and
  third accessed. \<open>vm0\<close> has no frame and no free page.
\<close>

definition vm_of :: "frame list \<Rightarrow> nat list \<Rightarrow> (nat \<times> nat) list \<Rightarrow> (nat \<times> nat) list \<Rightarrow> vm" where
  "vm_of tbl free acc drt =
     \<lparr>frame_table = tbl, pool = free, palloc_log = [],
      accessed = (\<lambda>k. k \<in> set acc), dirty = (\<lambda>k. k \<in> set drt),
      present = (\<lambda>k. k \<in> pte ` set tbl),
      page_valid = (\<lambda>up. True), page_swap_idx = (\<lambda>up. 0), swap = [],
      cur_pagedir = 1\<rparr>"

definition F :: "nat \<Rightarrow> frame" where
  "F n = \<lparr>pagedir = 1, addr = 100 + n, upage = 10 + n\<rparr>"

definition vm3 :: vm where
  "vm3 = vm_of [F 1, F 2, F 3] [] [(1, 11)] [(1, 12)]"

definition vm4 :: vm where
  "vm4 = vm_of [F 1, F 2, F 3, F 4] [] [(1, 11), (1, 13)] []"


text \<open>
  Three frames of one thread, the first two for the same user page, whose accessed bit is
  set; the bit of the third frame's page is clear.
\<close>

definition vm_shared :: vm where
  "vm_shared =
     vm_of [\<lparr>pagedir = 1, addr = 100, upage = 10\<rparr>,
            \<lparr>pagedir = 1, addr = 101, upage = 10\<rparr>,
            \<lparr>pagedir = 1, addr = 102, upage = 12\<rparr>] [] [(1, 10)] []"

section \<open>Namespace operations (filesys/filesys.c)\<close>

subsection \<open>Data\<close>

text \<open>
  A storage-backed object, named by the sector that holds it: its open count, its
  directory flag, the entries it holds when it is a directory (name and sector, in the
  order they were added) and its length in bytes.
\<close>

record inode =
  open_cnt :: int
  is_dir :: bool
  entries :: "(string \<times> nat) list"
  len :: nat

text \<open>
  The state of the file system: the objects by sector, the free sectors of the free map,
  and the sector of the running thread's working directory, \<^verbatim>\<open>thread_current ()->dir\<close>.
  A \<^verbatim>\<open>struct dir *\<close>, a \<^verbatim>\<open>struct inode *\<close> and a \<^verbatim>\<open>struct file *\<close> are the sector of
  the object they refer to; a null pointer is \<open>None\<close>.
\<close>

record fs =
  inodes :: "nat \<Rightarrow> inode option"
  free_map :: "nat list"
  cwd :: nat

subsection \<open>Collaborators\<close>

text \<open>
  Modelled from the spec: "the root directory's storage location is fixed" and a storage
  unit has a fixed size (directory.h, disk.h are not part of the sources).
\<close>

definition ROOT_DIR_SECTOR :: nat where
  "ROOT_DIR_SECTOR = 1"

definition DISK_SECTOR_SIZE :: nat where
  "DISK_SECTOR_SIZE = 512"

text \<open>
  Modelled from the spec: the object manager (inode.c is not part of the sources). Taking
  a reference on an object adds one to its open count, \<^verbatim>\<open>close(reference)\<close> takes one
  off, \<^verbatim>\<open>is_directory(reference)\<close> and \<^verbatim>\<open>open_count(reference)\<close> read its fields.
  \<^verbatim>\<open>create(location, size, is_directory)\<close> writes a new object with no holder at the
  location and takes the sectors for its contents from the free map; it fails, writing
  nothing, when the free map has too few.
\<close>

definition inode_reopen :: "nat \<Rightarrow> fs \<Rightarrow> fs" where
  "inode_reopen sec s =
     s\<lparr>inodes := (inodes s)
         (sec := map_option (\<lambda>i. i\<lparr>open_cnt := open_cnt i + 1\<rparr>) (inodes s sec))\<rparr>"

definition inode_close :: "nat \<Rightarrow> fs \<Rightarrow> fs" where
  "inode_close sec s =
     s\<lparr>inodes := (inodes s)
         (sec := map_option (\<lambda>i. i\<lparr>open_cnt := open_cnt i - 1\<rparr>) (inodes s sec))\<rparr>"

definition inode_is_dir :: "nat \<Rightarrow> fs \<Rightarrow> bool" where
  "inode_is_dir sec s = (case inodes s sec of None \<Rightarrow> False | Some i \<Rightarrow> is_dir i)"

definition inode_open_cnt :: "nat \<Rightarrow> fs \<Rightarrow> int" where
  "inode_open_cnt sec s = (case inodes s sec of None \<Rightarrow> 0 | Some i \<Rightarrow> open_cnt i)"

definition inode_create :: "nat \<Rightarrow> nat \<Rightarrow> bool \<Rightarrow> fs \<Rightarrow> bool \<times> fs" where
  "inode_create sector bytes isd s =
     (let n = (bytes + DISK_SECTOR_SIZE - 1) div DISK_SECTOR_SIZE
      in if length (free_map s) < n then (False, s)
         else (True,
               s\<lparr>inodes := (inodes s)
                   (sector \<mapsto> \<lparr>open_cnt = 0, is_dir = isd, entries = [], len = bytes\<rparr>),
                 free_map := drop n (free_map s)\<rparr>))"

text \<open>
  Modelled from the spec: the free-space allocator, \<^verbatim>\<open>allocate(count) -> location|failure\<close>
  (free-map.c is not part of the sources); the first \<open>cnt\<close> free sectors are taken and the
  first of them is the location.
\<close>

definition free_map_allocate :: "nat \<Rightarrow> fs \<Rightarrow> nat option \<times> fs" where
  "free_map_allocate cnt s =
     (case free_map s of
        [] \<Rightarrow> (None, s)
      | x # xs \<Rightarrow>
          if length (free_map s) < cnt then (None, s)
          else (Some x, s\<lparr>free_map := drop cnt (free_map s)\<rparr>))"

text \<open>
  Modelled from the spec: the directory store (directory.c is not part of the sources).
  \<^item> \<^verbatim>\<open>open, reopen (increments reference), close (decrements/releases)\<close>: \<^verbatim>\<open>open\<close>
    makes a directory handle of the object reference it is given and takes no reference
    of its own, \<^verbatim>\<open>reopen\<close> takes one more reference on the object of a handle, and
    \<^verbatim>\<open>close\<close> gives back the reference a handle holds. A failed allocation of the
    handle is not modelled.
  \<^item> \<^verbatim>\<open>lookup(name) -> object-reference|absent\<close> takes a reference on the object found.
  \<^item> \<^verbatim>\<open>add(name, location) -> bool\<close> fails on the empty name, which names the
    directory itself, and on a name that is present.
  \<^item> \<^verbatim>\<open>remove(name) -> bool\<close> erases the entry and fails on a name that is absent.
  \<^item> \<^verbatim>\<open>is_empty\<close>: the directory has no entry.
  \<^item> A new directory is "initialized as an empty directory".
\<close>

definition dir_open :: "nat \<Rightarrow> fs \<Rightarrow> nat \<times> fs" where
  "dir_open inode s = (inode, s)"

definition dir_reopen :: "nat \<Rightarrow> fs \<Rightarrow> nat option \<times> fs" where
  "dir_reopen dir s = (Some dir, inode_reopen dir s)"

definition dir_close :: "nat \<Rightarrow> fs \<Rightarrow> fs" where
  "dir_close dir s = inode_close dir s"

definition dir_get_inode :: "nat \<Rightarrow> nat" where
  "dir_get_inode dir = dir"

definition dir_entries :: "nat \<Rightarrow> fs \<Rightarrow> (string \<times> nat) list" where
  "dir_entries dir s = (case inodes s dir of None \<Rightarrow> [] | Some d \<Rightarrow> entries d)"

definition dir_lookup :: "nat \<Rightarrow> string \<Rightarrow> fs \<Rightarrow> nat option \<times> fs" where
  "dir_lookup dir name s =
     (case map_of (dir_entries dir s) name of
        None \<Rightarrow> (None, s)
      | Some sec \<Rightarrow> (Some sec, inode_reopen sec s))"

definition dir_add :: "nat \<Rightarrow> string \<Rightarrow> nat \<Rightarrow> fs \<Rightarrow> bool \<times> fs" where
  "dir_add dir name sector s =
     (case inodes s dir of
        None \<Rightarrow> (False, s)
      | Some d \<Rightarrow>
          if name = [] \<or> map_of (entries d) name \<noteq> None then (False, s)
          else (True,
                s\<lparr>inodes := (inodes s)
                    (dir \<mapsto> d\<lparr>entries := entries d @ [(name, sector)]\<rparr>)\<rparr>))"

definition dir_remove :: "nat \<Rightarrow> string \<Rightarrow> fs \<Rightarrow> bool \<times> fs" where
  "dir_remove dir name s =
     (case inodes s dir of
        None \<Rightarrow> (False, s)
      | Some d \<Rightarrow>
          if map_of (entries d) name = None then (False, s)
          else (True,
                s\<lparr>inodes := (inodes s)
                    (dir \<mapsto> d\<lparr>entries := filter (\<lambda>e. fst e \<noteq> name) (entries d)\<rparr>)\<rparr>))"

definition dir_empty :: "nat \<Rightarrow> fs \<Rightarrow> bool" where
  "dir_empty dir s = (dir_entries dir s = [])"

definition dir_create :: "nat \<Rightarrow> nat \<Rightarrow> fs \<Rightarrow> bool \<times> fs" where
  "dir_create sector entry_cnt s = inode_create sector 0 True s"

text \<open>
  Modelled from the spec: a path is "an ordered sequence of name components" that
  "splits into a parent path (possibly empty, meaning the current context directory) and a
  leaf name" (\<^verbatim>\<open>dir_path_and_name\<close> and \<^verbatim>\<open>dir_parse\<close> are not part of the sources). The
  leaf is what follows the last separator, the parent path what precedes it, separator
  included; a name with no separator has no parent path. A parent path "resolves via
  recursive directory lookup", from the root when it starts with a separator and from the
  working directory otherwise, each component naming a directory; the handle
  returned holds one reference on the directory reached.
\<close>

definition is_sep :: "char \<Rightarrow> bool" where
  "is_sep c = (c = CHR ''/'')"

definition dir_path_and_name :: "string \<Rightarrow> (string option \<times> string) option" where
  "dir_path_and_name name =
     (if \<exists>c\<in>set name. is_sep c
      then Some (Some (rev (dropWhile (\<lambda>c. \<not> is_sep c) (rev name))),
                 rev (takeWhile (\<lambda>c. \<not> is_sep c) (rev name)))
      else Some (None, name))"

primrec split_path :: "string \<Rightarrow> string \<Rightarrow> string list" where
  "split_path cur [] = (if cur = [] then [] else [cur])"
| "split_path cur (c # cs) =
     (if is_sep c then (if cur = [] then split_path [] cs else cur # split_path [] cs)
      else split_path (cur @ [c]) cs)"

primrec walk :: "(nat \<Rightarrow> inode option) \<Rightarrow> nat \<Rightarrow> string list \<Rightarrow> nat option" where
  "walk ino d [] =
     (case ino d of None \<Rightarrow> None | Some i \<Rightarrow> if is_dir i then Some d else None)"
| "walk ino d (c # cs) =
     (case ino d of
        None \<Rightarrow> None
      | Some i \<Rightarrow>
          if is_dir i
          then (case map_of (entries i) c of None \<Rightarrow> None | Some t \<Rightarrow> walk ino t cs)
          else None)"

definition dir_parse :: "string \<Rightarrow> fs \<Rightarrow> nat option \<times> fs" where
  "dir_parse path s =
     (case walk (inodes s)
             (if path \<noteq> [] \<and> is_sep (hd path) then ROOT_DIR_SECTOR else cwd s)
             (split_path [] path) of
        None \<Rightarrow> (None, s)
      | Some d \<Rightarrow> (Some d, inode_reopen d s))"

text \<open>
  Modelled from the spec: a file handle on an object is the reference it is given
  (file.c is not part of the sources); a null reference gives a null handle.
\<close>

definition file_open :: "nat option \<Rightarrow> nat option" where
  "file_open inode = inode"

subsection \<open>The operations of the source\<close>

text \<open>
  The resolution of the parent, the same lines in the three operations: the working
  directory reopened when \<^verbatim>\<open>path == NULL\<close>, \<^verbatim>\<open>dir_parse (path)\<close> otherwise.
\<close>

definition resolve_parent :: "string option \<Rightarrow> fs \<Rightarrow> nat option \<times> fs" where
  "resolve_parent path s =
     (case path of
        None \<Rightarrow> dir_reopen (cwd s) s
      | Some p \<Rightarrow> dir_parse p s)"

text \<open>
  \<^verbatim>\<open>filesys_create\<close>. The name is \<open>None\<close> for a null pointer, which the assertion
  refuses. The link into the parent is attempted whether or not the object was
  initialized, and nothing is undone when either fails.
\<close>

definition filesys_create ::
  "string option \<Rightarrow> nat \<Rightarrow> bool \<Rightarrow> fs \<Rightarrow> fault + (bool \<times> fs)" where
  "filesys_create name initial_size isd s =
     (case name of
        None \<Rightarrow> Inl Assertion_failed
      | Some nm \<Rightarrow>
     (case dir_path_and_name nm of
        None \<Rightarrow> Inr (False, s)
      | Some (path, filename) \<Rightarrow>
     (case resolve_parent path s of
        (None, s1) \<Rightarrow> Inr (False, s1)
      | (Some parent, s1) \<Rightarrow>
     (case dir_lookup parent filename s1 of
        (Some inode, s2) \<Rightarrow> Inr (False, dir_close parent (inode_close inode s2))
      | (None, s2) \<Rightarrow>
     (case free_map_allocate 1 s2 of
        (None, s3) \<Rightarrow> Inr (False, dir_close parent s3)
      | (Some sector, s3) \<Rightarrow>
     (case (if isd then dir_create sector 0 s3
            else inode_create sector initial_size False s3) of
        (created, s4) \<Rightarrow>
     (case dir_add parent filename sector s4 of
        (added, s5) \<Rightarrow> Inr (created \<and> added, dir_close parent s5))))))))"

text \<open>
  \<^verbatim>\<open>filesys_open\<close>. With an empty leaf the result is a file on the directory's own
  object and the function returns at once.
\<close>

definition filesys_open :: "string option \<Rightarrow> fs \<Rightarrow> fault + (nat option \<times> fs)" where
  "filesys_open name s =
     (case name of
        None \<Rightarrow> Inl Assertion_failed
      | Some nm \<Rightarrow>
     (case dir_path_and_name nm of
        None \<Rightarrow> Inr (None, s)
      | Some (path, filename) \<Rightarrow>
     (case resolve_parent path s of
        (None, s1) \<Rightarrow> Inr (None, s1)
      | (Some dir, s1) \<Rightarrow>
          if filename = [] then Inr (file_open (Some (dir_get_inode dir)), s1)
          else (case dir_lookup dir filename s1 of
                  (inode, s2) \<Rightarrow> Inr (file_open inode, dir_close dir s2)))))"

text \<open>
  \<^verbatim>\<open>filesys_remove\<close>. The result of \<^verbatim>\<open>dir_lookup\<close> is not tested: after a failed
  lookup the inode pointer is null, it differs from the working directory's, and
  \<^verbatim>\<open>inode_is_dir\<close> reads through it. \<open>remove_directory\<close> is the branch taken for a
  directory, \<open>remove_found\<close> all that follows a lookup that found an object.
\<close>

definition remove_directory :: "nat \<Rightarrow> string \<Rightarrow> nat \<Rightarrow> fs \<Rightarrow> bool \<times> fs" where
  "remove_directory dir filename inode s =
     (case dir_open inode s of
        (target_dir, s1) \<Rightarrow>
          if dir_empty target_dir s1
          then (case dir_close target_dir s1 of
                  s2 \<Rightarrow>
                    if inode_open_cnt inode s2 \<le> 1 then dir_remove dir filename s2
                    else (False, s2))
          else (False, dir_close target_dir s1))"

definition remove_found :: "nat \<Rightarrow> string \<Rightarrow> nat \<Rightarrow> fs \<Rightarrow> bool \<times> fs" where
  "remove_found dir filename inode s =
     (if inode = dir_get_inode (cwd s) then (False, inode_close inode (dir_close dir s))
      else (case (if inode_is_dir inode s then remove_directory dir filename inode s
                  else dir_remove dir filename s) of
              (success, s1) \<Rightarrow> (success, inode_close inode (dir_close dir s1))))"

definition filesys_remove :: "string option \<Rightarrow> fs \<Rightarrow> fault + (bool \<times> fs)" where
  "filesys_remove name s =
     (case name of
        None \<Rightarrow> Inr (False, s)
      | Some nm \<Rightarrow>
     (case dir_path_and_name nm of
        None \<Rightarrow> Inr (False, s)
      | Some (path, filename) \<Rightarrow>
     (case resolve_parent path s of
        (None, s1) \<Rightarrow> Inr (False, s1)
      | (Some dir, s1) \<Rightarrow>
          if filename = [] then Inr (False, s1)
          else (case dir_lookup dir filename s1 of
                  (None, s2) \<Rightarrow> Inl Null_inode
                | (Some inode, s2) \<Rightarrow> Inr (remove_found dir filename inode s2)))))"

subsection \<open>Concrete states\<close>

text \<open>
  A formatted file system with eight free sectors, the running thread's working
  directory bound to the root.
\<close>

definition fs_root :: fs where
  "fs_root =
     \<lparr>inodes = (\<lambda>sec. None)
        (ROOT_DIR_SECTOR \<mapsto> \<lparr>open_cnt = 1, is_dir = True, entries = [], len = 0\<rparr>),
      free_map = [2, 3, 4, 5, 6, 7, 8, 9],
      cwd = ROOT_DIR_SECTOR\<rparr>"

text \<open>
  The root with one entry \<open>d\<close>, an empty directory in sector 2 that \<open>holders\<close> other
  contexts have open.
\<close>

definition fs_dir :: "int \<Rightarrow> fs" where
  "fs_dir holders =
     \<lparr>inodes = (\<lambda>sec. None)
        (ROOT_DIR_SECTOR \<mapsto> \<lparr>open_cnt = 1, is_dir = True, entries = [(''d'', 2)], len = 0\<rparr>,
         2 \<mapsto> \<lparr>open_cnt = holders, is_dir = True, entries = [], len = 0\<rparr>),
      free_map = [3, 4, 5, 6, 7, 8, 9],
      cwd = ROOT_DIR_SECTOR\<rparr>"

subsection \<open>Well-formed states\<close>

text \<open>
  A state without its open counts: every object with its directory flag, entries and
  length, the free map and the working directory.
\<close>

definition layout ::
  "fs \<Rightarrow> (nat \<Rightarrow> (bool \<times> (string \<times> nat) list \<times> nat) option) \<times> nat list \<times> nat" where
  "layout s =
     (\<lambda>sec. map_option (\<lambda>i. (is_dir i, entries i, len i)) (inodes s sec),
      free_map s, cwd s)"

text \<open>A free sector holds no object.\<close>

definition free_ok :: "fs \<Rightarrow> bool" where
  "free_ok s \<longleftrightarrow> (\<forall>x\<in>set (free_map s). inodes s x = None)"

text \<open>
  The objects of one state are kept by another, each a directory or not as before, with
  every entry it had.
\<close>

definition extends :: "(nat \<Rightarrow> inode option) \<Rightarrow> (nat \<Rightarrow> inode option) \<Rightarrow> bool" where
  "extends ino ino' \<longleftrightarrow>
     (\<forall>x i. ino x = Some i \<longrightarrow>
        (\<exists>i'. ino' x = Some i' \<and> is_dir i' = is_dir i
           \<and> (\<forall>c t. map_of (entries i) c = Some t \<longrightarrow> map_of (entries i') c = Some t)))"


section \<open>Properties of the frame table\<close>

subsection \<open>The scan\<close>

lemma filter_clear_le:
  "length (filter (acc(k := False)) ks) \<le> length (filter acc ks)"
  by (induction ks) auto

lemma filter_clear_less:
  "k \<in> set ks \<Longrightarrow> acc k \<Longrightarrow>
     length (filter (acc(k := False)) ks) < length (filter acc ks)"
proof (induction ks)
  case Nil
  then show ?case by simp
next
  case (Cons a ks)
  show ?case
  proof (cases "a = k")
    case True
    have le: "length (filter (acc(k := False)) ks) \<le> length (filter acc ks)"
      by (rule filter_clear_le)
    have "filter (acc(k := False)) (a # ks) = filter (acc(k := False)) ks"
      using True by (simp del: fun_upd_apply add: fun_upd_same)
    moreover have "filter acc (a # ks) = a # filter acc ks"
      using True Cons.prems by simp
    ultimately show ?thesis using le by (simp del: fun_upd_apply filter.simps)
  next
    case False
    with Cons.prems have "k \<in> set ks" by simp
    with Cons have lt: "length (filter (acc(k := False)) ks) < length (filter acc ks)"
      by blast
    have "(acc(k := False)) a = acc a" using False by simp
    then have "length (filter (acc(k := False)) (a # ks)) =
      (if acc a then 1 else 0) + length (filter (acc(k := False)) ks)"
      by (simp del: fun_upd_apply)
    with lt show ?thesis by (simp del: fun_upd_apply)
  qed
qed

lemma set_bits_decreases:
  assumes "i < length (frame_table s)"
    and "pagedir_is_accessed (pagedir (frame_table s ! i)) (upage (frame_table s ! i)) s"
  shows "set_bits (pagedir_set_accessed (pagedir (frame_table s ! i))
           (upage (frame_table s ! i)) False s) < set_bits s"
proof -
  have "pte (frame_table s ! i) \<in> set (remdups (map pte (frame_table s)))"
    using assms(1) by simp
  moreover have "accessed s (pte (frame_table s ! i))"
    using assms(2) by (simp add: pagedir_is_accessed_def pte_def)
  ultimately show ?thesis
    unfolding set_bits_def pagedir_set_accessed_def
    using filter_clear_less [of "pte (frame_table s ! i)" _ "accessed s"]
    by (simp add: pte_def del: fun_upd_apply)
qed

termination second_chance
  by (relation "measure (\<lambda>(s, i, seen). set_bits s)")
     (simp_all add: set_bits_decreases)

declare second_chance.simps [simp del]

lemma set_accessed_frame_table [simp]:
  "frame_table (pagedir_set_accessed pd up b s) = frame_table s"
  by (simp add: pagedir_set_accessed_def)

lemma set_accessed_pool [simp]:
  "pool (pagedir_set_accessed pd up b s) = pool s"
  by (simp add: pagedir_set_accessed_def)

lemma second_chance_total:
  "i < length (frame_table s) \<Longrightarrow>
     \<exists>j seen' s'. second_chance s i seen = Some (j, seen @ seen', s')
       \<and> j < length (frame_table s) \<and> seen' \<noteq> [] \<and> last seen' = j
       \<and> (\<forall>n<length seen'. seen' ! n = (i + n) mod length (frame_table s))
       \<and> frame_table s' = frame_table s \<and> pool s' = pool s"
proof (induction s i seen rule: second_chance.induct)
  case (1 s i seen)
  let ?f = "frame_table s ! i"
  let ?L = "length (frame_table s)"
  show ?case
  proof (cases "pagedir_is_accessed (pagedir ?f) (upage ?f) s")
    case False
    with "1.prems" have "second_chance s i seen = Some (i, seen @ [i], s)"
      by (simp add: second_chance.simps)
    with "1.prems" show ?thesis by simp
  next
    case True
    let ?s1 = "pagedir_set_accessed (pagedir ?f) (upage ?f) False s"
    let ?i1 = "if Suc i = ?L then 0 else Suc i"
    have i1: "?i1 < length (frame_table ?s1)" using "1.prems" by auto
    have i1mod: "?i1 = Suc i mod ?L" using "1.prems" by auto
    from "1.IH" [OF _ True i1] "1.prems"
    obtain j seen' s' where r: "second_chance ?s1 ?i1 (seen @ [i]) = Some (j, (seen @ [i]) @ seen', s')"
      and j: "j < ?L" and ne: "seen' \<noteq> []" and l: "last seen' = j"
      and c: "\<forall>n<length seen'. seen' ! n = (?i1 + n) mod ?L"
      and ft: "frame_table s' = frame_table s" and pl: "pool s' = pool s"
      by auto
    have "second_chance s i seen = Some (j, seen @ (i # seen'), s')"
      using True "1.prems" r by (subst second_chance.simps) simp
    moreover have "\<forall>n<length (i # seen'). (i # seen') ! n = (i + n) mod ?L"
    proof (intro allI impI)
      fix n assume n: "n < length (i # seen')"
      show "(i # seen') ! n = (i + n) mod ?L"
      proof (cases n)
        case 0
        with "1.prems" show ?thesis by simp
      next
        case (Suc m)
        with n c have "seen' ! m = (?i1 + m) mod ?L" by simp
        also have "\<dots> = (Suc i mod ?L + m) mod ?L" using i1mod by simp
        also have "\<dots> = (i + Suc m) mod ?L" by (simp add: mod_add_left_eq)
        finally show ?thesis using Suc by simp
      qed
    qed
    ultimately show ?thesis using j ne l ft pl by auto
  qed
qed

lemma scanned_fields [simp]:
  "frame_table (scanned j s) = frame_table s" "pool (scanned j s) = pool s"
  by (simp_all add: scanned_def)

lemma scanned_0: "scanned 0 s = s"
  by (simp add: scanned_def)

lemma scanned_is_accessed:
  "pagedir_is_accessed (pagedir (frame_table s ! i)) (upage (frame_table s ! i)) (scanned i s)
     = reached_set s i"
  by (simp add: pagedir_is_accessed_def scanned_def reached_set_def pte_def)

lemma scanned_Suc:
  assumes "i < length (frame_table s)"
  shows "pagedir_set_accessed (pagedir (frame_table s ! i)) (upage (frame_table s ! i)) False
           (scanned i s) = scanned (Suc i) s"
proof -
  have "(\<lambda>k. accessed s k \<and> k \<notin> pte ` set (take i (frame_table s)))
          (pte (frame_table s ! i) := False)
        = (\<lambda>k. accessed s k \<and> k \<notin> pte ` set (take (Suc i) (frame_table s)))"
    using assms by (auto simp: fun_eq_iff take_Suc_conv_app_nth)
  then show ?thesis
    by (simp add: pagedir_set_accessed_def scanned_def pte_def)
qed

lemma scan_reaches:
  assumes "j < length (frame_table s)" and "\<not> reached_set s j"
    and "\<forall>k<j. reached_set s k"
  shows "i \<le> j \<Longrightarrow>
           second_chance (scanned i s) i seen = Some (j, seen @ [i..<Suc j], scanned j s)"
proof (induction "j - i" arbitrary: i seen)
  case 0
  then have "i = j" by simp
  with assms show ?case
    by (subst second_chance.simps) (simp add: scanned_is_accessed)
next
  case (Suc n)
  then have lt: "i < j" by simp
  with assms have i: "i < length (frame_table s)" "Suc i \<noteq> length (frame_table s)"
    "reached_set s i"
    by auto
  from Suc.hyps(1) [of "Suc i" "seen @ [i]"] Suc.hyps(2) lt
  have "second_chance (scanned (Suc i) s) (Suc i) (seen @ [i])
      = Some (j, (seen @ [i]) @ [Suc i..<Suc j], scanned j s)"
    by simp
  moreover have "[i..<Suc j] = i # [Suc i..<Suc j]"
    using lt by (simp add: upt_conv_Cons)
  ultimately show ?case
    using i by (subst second_chance.simps) (simp add: scanned_is_accessed scanned_Suc)
qed

lemma first_clear_props:
  assumes "\<exists>f\<in>set (frame_table s). \<not> accessed s (pte f)"
  shows "first_clear s < length (frame_table s)"
    and "\<not> accessed s (pte (frame_table s ! first_clear s))"
    and "\<forall>k<first_clear s. accessed s (pte (frame_table s ! k))"
proof -
  show 1: "first_clear s < length (frame_table s)"
  proof -
    let ?P = "\<lambda>f. accessed s (pte f)"
    have "takeWhile ?P (frame_table s) \<noteq> frame_table s"
      using assms by simp
    then have "length (takeWhile ?P (frame_table s)) \<noteq> length (frame_table s)"
      using takeWhile_eq_take [of ?P "frame_table s"] by auto
    with length_takeWhile_le [of ?P "frame_table s"] show ?thesis
      unfolding first_clear_def by simp
  qed
  show "\<not> accessed s (pte (frame_table s ! first_clear s))"
    using 1 unfolding first_clear_def by (rule nth_length_takeWhile)
  show "\<forall>k<first_clear s. accessed s (pte (frame_table s ! k))"
  proof (intro allI impI)
    fix k assume k: "k < first_clear s"
    then have "takeWhile (\<lambda>f. accessed s (pte f)) (frame_table s) ! k = frame_table s ! k"
      unfolding first_clear_def by (rule takeWhile_nth)
    moreover have "takeWhile (\<lambda>f. accessed s (pte f)) (frame_table s) ! k
        \<in> set (takeWhile (\<lambda>f. accessed s (pte f)) (frame_table s))"
      using k unfolding first_clear_def by simp
    ultimately show "accessed s (pte (frame_table s ! k))"
      by (auto dest: set_takeWhileD)
  qed
qed

lemma nth_not_in_take:
  "distinct xs \<Longrightarrow> k < length xs \<Longrightarrow> xs ! k \<notin> set (take k xs)"
  using id_take_nth_drop [of k xs] distinct_append [of "take k xs" "xs ! k # drop (Suc k) xs"]
  by auto

lemma first_clear_unique:
  assumes "j < length (frame_table s)" and "\<not> accessed s (pte (frame_table s ! j))"
    and "\<forall>k<j. accessed s (pte (frame_table s ! k))"
  shows "first_clear s = j"
proof -
  have "takeWhile (\<lambda>f. accessed s (pte f)) (frame_table s) = take j (frame_table s)"
    using assms by (intro takeWhile_eq_take_P_nth) auto
  with assms(1) show ?thesis by (simp add: first_clear_def)
qed

lemma scan_stop_props:
  assumes "\<exists>f\<in>set (frame_table s). \<not> accessed s (pte f)"
  shows "scan_stop s \<le> first_clear s"
    and "scan_stop s < length (frame_table s)"
    and "\<not> reached_set s (scan_stop s)"
    and "\<forall>k<scan_stop s. reached_set s k"
    and "distinct (map pte (frame_table s)) \<Longrightarrow> scan_stop s = first_clear s"
proof -
  let ?n = "length (frame_table s)"
  let ?tw = "takeWhile (reached_set s) [0..<?n]"
  note fc = first_clear_props [OF assms]
  have tw_le: "length ?tw \<le> ?n"
    using length_takeWhile_le [of "reached_set s" "[0..<?n]"] by simp
  have tw_nth: "?tw ! k = k" if "k < length ?tw" for k
    using that tw_le takeWhile_nth [of k "reached_set s" "[0..<?n]"] by simp
  show before: "\<forall>k<scan_stop s. reached_set s k"
  proof (intro allI impI)
    fix k assume k: "k < scan_stop s"
    then have "?tw ! k \<in> set ?tw" by (simp add: scan_stop_def)
    then have "reached_set s (?tw ! k)" by (auto dest: set_takeWhileD)
    with k tw_nth show "reached_set s k" by (simp add: scan_stop_def)
  qed
  have "\<not> reached_set s (first_clear s)"
    using fc(2) by (simp add: reached_set_def)
  with before show le: "scan_stop s \<le> first_clear s"
    by (metis not_le_imp_less)
  with fc(1) show lt: "scan_stop s < length (frame_table s)" by simp
  then have "length ?tw < length [0..<?n]" by (simp add: scan_stop_def)
  then have "\<not> reached_set s ([0..<?n] ! length ?tw)" by (rule nth_length_takeWhile)
  with lt show stop: "\<not> reached_set s (scan_stop s)" by (simp add: scan_stop_def)
  show "scan_stop s = first_clear s" if d: "distinct (map pte (frame_table s))"
  proof -
    have fresh: "pte (frame_table s ! k) \<notin> pte ` set (take k (frame_table s))"
      if "k < length (frame_table s)" for k
      using nth_not_in_take [OF d, of k] that by (simp add: take_map)
    have "\<not> accessed s (pte (frame_table s ! scan_stop s))"
      using stop lt fresh by (simp add: reached_set_def)
    moreover have "\<forall>k<scan_stop s. accessed s (pte (frame_table s ! k))"
      using before by (simp add: reached_set_def)
    ultimately show ?thesis using first_clear_unique [OF lt] by simp
  qed
qed

lemma evict_reclaim_frame_table:
  "frame_table (evict_reclaim i s) = list_remove i (frame_table s)"
  by (simp add: evict_reclaim_def Let_def palloc_free_page_def
      pagedir_clear_page_def page_set_swapped_def swap_out_def)

lemma evict_reclaim_pool:
  "pool (evict_reclaim i s) = addr (frame_table s ! i) # pool s"
  by (simp add: evict_reclaim_def Let_def palloc_free_page_def
      pagedir_clear_page_def page_set_swapped_def swap_out_def)

lemma evict_victim_result:
  "evict_victim flags i s = (Some (addr (frame_table s ! i)), snd (evict_victim flags i s))"
  by (simp add: evict_victim_def palloc_get_page_def evict_reclaim_pool)

lemma evict_victim_frame_table:
  "frame_table (snd (evict_victim flags i s)) = list_remove i (frame_table s)"
  by (simp add: evict_victim_def palloc_get_page_def evict_reclaim_pool evict_reclaim_frame_table)

lemma evict_victim_pool:
  "pool (snd (evict_victim flags i s)) = pool s"
  by (simp add: evict_victim_def palloc_get_page_def evict_reclaim_pool)

lemma length_list_remove:
  "i < length xs \<Longrightarrow> Suc (length (list_remove i xs)) = length xs"
  by (auto simp add: list_remove_def)

subsection \<open>No page twice in the frame table\<close>

lemma list_remove_distinct:
  assumes "distinct (map f xs)" "i < length xs"
  shows "distinct (map f (list_remove i xs))"
    and "f (xs ! i) \<notin> f ` set (list_remove i xs)"
    and "set (list_remove i xs) \<subseteq> set xs"
proof -
  have xs: "xs = take i xs @ xs ! i # drop (Suc i) xs"
    using assms(2) by (simp add: id_take_nth_drop)
  have d: "distinct (map f (take i xs @ xs ! i # drop (Suc i) xs))"
    using assms(1) xs by simp
  show "distinct (map f (list_remove i xs))"
    using d unfolding list_remove_def by auto
  show "f (xs ! i) \<notin> f ` set (list_remove i xs)"
    using d unfolding list_remove_def by auto
  show "set (list_remove i xs) \<subseteq> set xs"
    unfolding list_remove_def by (auto dest: in_set_takeD in_set_dropD)
qed

lemma find_frame_Some:
  "find_frame page fs = Some i \<Longrightarrow> i < length fs \<and> addr (fs ! i) = page"
  by (induction fs arbitrary: i) (auto split: if_splits)

lemma frame_free_inv: "frame_inv s \<Longrightarrow> frame_inv (frame_free page s)"
proof (cases "find_frame page (frame_table s)")
  case None
  assume "frame_inv s"
  with None show ?thesis by (simp add: frame_free_def)
next
  case (Some i)
  assume inv: "frame_inv s"
  from Some have i: "i < length (frame_table s)" by (auto dest: find_frame_Some)
  from inv have d: "distinct (map addr (frame_table s))" by (simp add: frame_inv_def)
  note r = list_remove_distinct [OF d i]
  have "addr (frame_table s ! i) \<notin> set (pool s)"
    using inv i unfolding frame_inv_def by (auto simp: disjoint_iff)
  with Some inv r show ?thesis
    unfolding frame_inv_def frame_free_def palloc_free_page_def
    by (auto simp: disjoint_iff)
qed
lemma palloc_get_page_held: "frame_inv s \<Longrightarrow> held (palloc_get_page flags s)"
  unfolding held_def palloc_get_page_def frame_inv_def
  by (cases "pool s") (auto simp: disjoint_iff)

lemma frame_push_inv: "held r \<Longrightarrow> frame_inv (snd (frame_push up r))"
  unfolding held_def frame_push_def frame_inv_def
  by (cases r) (auto split: option.splits simp: disjoint_iff)

lemma evict_victim_held:
  assumes "frame_inv s" "i < length (frame_table s)"
  shows "held (evict_victim flags i s)"
proof -
  from assms have d: "distinct (map addr (frame_table s))" by (simp add: frame_inv_def)
  note r = list_remove_distinct [OF d assms(2)]
  have np: "addr (frame_table s ! i) \<notin> set (pool s)"
    using assms unfolding frame_inv_def by (auto simp: disjoint_iff)
  have "held (Some (addr (frame_table s ! i)), snd (evict_victim flags i s))"
    unfolding held_def using assms(1) r np
    by (auto simp: evict_victim_frame_table evict_victim_pool frame_inv_def disjoint_iff)
  then show ?thesis using evict_victim_result [of flags i s] by simp
qed

lemma frame_evict_held:
  assumes "frame_inv s" "frame_evict flags s = Inr r"
  shows "held r"
proof (cases "frame_table s = []")
  case True
  then have "evict_scan s = None" by (simp add: evict_scan_def second_chance.simps)
  with assms(2) show ?thesis by (simp add: frame_evict_def)
next
  case False
  then have "0 < length (frame_table s)" by simp
  from second_chance_total [OF this, of "[]"]
  obtain j seen' s' where sc: "evict_scan s = Some (j, seen', s')"
    and j: "j < length (frame_table s)"
    and ft: "frame_table s' = frame_table s" and pl: "pool s' = pool s"
    by (auto simp: evict_scan_def)
  from assms(1) ft pl have "frame_inv s'" by (simp add: frame_inv_def)
  with j ft have "held (evict_victim flags j s')" by (simp add: evict_victim_held)
  with sc assms(2) show ?thesis by (simp add: frame_evict_def)
qed

lemma frame_alloc_inv:
  assumes "frame_inv s" "frame_alloc up flags s = Inr (page, s')"
  shows "frame_inv s'"
proof (cases "palloc_get_page (PAL_USER OR flags) s")
  case (Pair p s1)
  have h: "held (p, s1)" using palloc_get_page_held [OF assms(1), of "PAL_USER OR flags"] Pair by simp
  show ?thesis
  proof (cases p)
    case (Some a)
    with Pair assms(2) have "s' = snd (frame_push up (Some a, s1))"
      by (simp add: frame_alloc_def)
    with h Some show ?thesis by (simp add: frame_push_inv)
  next
    case None
    with h have inv1: "frame_inv s1" by (simp add: held_def)
    from None Pair assms(2) obtain r where r: "frame_evict flags s1 = Inr r"
      and s': "s' = snd (frame_push up r)"
      by (auto simp: frame_alloc_def split: sum.splits)
    from frame_evict_held [OF inv1 r] s' show ?thesis by (simp add: frame_push_inv)
  qed
qed

lemma apply_op_inv: "frame_inv s \<Longrightarrow> apply_op x s = Inr s' \<Longrightarrow> frame_inv s'"
proof (cases x)
  case (Alloc up flags)
  assume "frame_inv s" "apply_op x s = Inr s'"
  with Alloc show ?thesis by (auto split: sum.splits dest: frame_alloc_inv)
next
  case (Free page)
  assume "frame_inv s" "apply_op x s = Inr s'"
  with Free show ?thesis by (auto simp: frame_free_inv)
next
  case (Evict flags)
  assume "frame_inv s" "apply_op x s = Inr s'"
  with Evict show ?thesis
    by (auto split: sum.splits dest!: frame_evict_held simp: held_def split: option.splits)
qed

lemma apply_ops_inv: "frame_inv s \<Longrightarrow> apply_ops xs s = Inr s' \<Longrightarrow> frame_inv s'"
proof (induction xs arbitrary: s)
  case Nil
  then show ?case by simp
next
  case (Cons x xs)
  then show ?case by (auto split: sum.splits dest: apply_op_inv)
qed

subsection \<open>Evaluation on concrete states\<close>

lemmas frame_eval =
  vm_of_def F_def pte_def frame_evict_def evict_scan_def second_chance.simps
  pagedir_is_accessed_def pagedir_set_accessed_def evict_victim_def evict_reclaim_def
  pagedir_is_dirty_def swap_out_def page_set_swapped_def list_remove_def
  pagedir_clear_page_def palloc_free_page_def palloc_get_page_def

subsection \<open>The claims on the frame table\<close>

text \<open>
  Claim C1, as the code has it: \<^verbatim>\<open>frame_evict\<close> keeps no cursor between calls. On
  every non-empty frame table the scan inspects position 0 first, whatever an earlier call
  did, and then the positions in list order, from the last back to the first, up to the
  victim.
\<close>

theorem frame_evict_scans_from_head:
  assumes "frame_table s \<noteq> []"
  shows "\<exists>j seen s1. evict_scan s = Some (j, seen, s1)
           \<and> frame_evict flags s = Inr (evict_victim flags j s1)
           \<and> seen \<noteq> [] \<and> hd seen = 0 \<and> last seen = j
           \<and> (\<forall>n<length seen. seen ! n = n mod length (frame_table s))"
proof -
  from assms have "0 < length (frame_table s)" by simp
  from second_chance_total [OF this, of "[]"]
  obtain j seen s1 where sc: "evict_scan s = Some (j, seen, s1)"
    and ne: "seen \<noteq> []" and l: "last seen = j"
    and c: "\<forall>n<length seen. seen ! n = n mod length (frame_table s)"
    by (auto simp: evict_scan_def)
  from ne c have "seen ! 0 = 0" by simp
  with ne have "hd seen = 0" by (simp add: hd_conv_nth)
  with sc ne l c show ?thesis by (simp add: frame_evict_def)
qed

text \<open>
  On \<open>vm4\<close> the scan inspects positions 0 and 1 and takes the frame at position 1.
\<close>

theorem frame_evict_scans_from_head_witness:
  "frame_table vm4 \<noteq> []
   \<and> (\<exists>s1. evict_scan vm4 = Some (1, [0, 1], s1) \<and> frame_evict 0 vm4 = Inr (evict_victim 0 1 s1))"
proof -
  have ne: "frame_table vm4 \<noteq> []" by (simp add: vm4_def vm_of_def)
  from frame_evict_scans_from_head [OF ne, of 0]
  obtain j seen s1 where "evict_scan vm4 = Some (j, seen, s1)"
    "frame_evict 0 vm4 = Inr (evict_victim 0 j s1)" by blast
  moreover have "fst (the (evict_scan vm4)) = 1" "fst (snd (the (evict_scan vm4))) = [0, 1]"
    by (simp_all add: vm4_def frame_eval)
  ultimately show ?thesis using ne by auto
qed

text \<open>
  Claim C1 as stated fails: on \<open>vm4\<close> the first call stops at the second frame. A scan
  that went on from there would take the fourth frame next and leave the first and third;
  the second call of \<^verbatim>\<open>frame_evict\<close> starts at the head again, takes the first frame
  and leaves the third and fourth.
\<close>

theorem frame_evict_restarts_counterexample:
  "evict_twice 0 vm4 = Inr [F 3, F 4] \<and> clock_evict_twice 0 vm4 = Inr [F 1, F 3]"
  by (simp add: evict_twice_def clock_evict_twice_def clock_evict_def vm4_def frame_eval)

text \<open>
  Claim C2, as the code has it: on a non-empty frame table with a frame whose accessed
  bit is clear, \<^verbatim>\<open>frame_evict\<close> returns after a scan of positions 0 to \<open>scan_stop\<close>, no
  more than the table has frames. The victim is the first frame whose accessed bit is
  clear when the scan reaches it: a frame whose bit is clear at the call, or one that
  shares its page-table entry with an earlier frame, whose bit the scan has just cleared.
  It is never after the first frame whose bit is clear at the call, and it is that frame
  when no two frames share an entry. Whatever the victim's dirty bit, exactly that frame
  leaves the table, its page is unmapped, and the allocator receives exactly one release,
  of the victim's page, followed by one request, which returns that page; a dirty victim
  is written to the next swap slot and its page entry marked.
\<close>

theorem frame_evict_clock_progress:
  assumes "frame_table s \<noteq> []"
    and "\<exists>f\<in>set (frame_table s). \<not> accessed s (pte f)"
  shows "scan_stop s \<le> first_clear s \<and> first_clear s < length (frame_table s)
       \<and> (distinct (map pte (frame_table s)) \<longrightarrow> scan_stop s = first_clear s)
       \<and> evict_scan s = Some (scan_stop s, [0..<Suc (scan_stop s)], scanned (scan_stop s) s)
       \<and> length [0..<Suc (scan_stop s)] \<le> length (frame_table s)
       \<and> Suc (length (list_remove (scan_stop s) (frame_table s))) = length (frame_table s)
       \<and> frame_evict flags s
           = Inr (Some (addr (victim s)),
                  (scanned (scan_stop s) s)
                  \<lparr>frame_table := list_remove (scan_stop s) (frame_table s),
                    palloc_log := palloc_log s
                      @ [Free_page (addr (victim s)),
                         Get_page (PAL_USER OR flags) (Some (addr (victim s)))],
                    present := (present s)(pte (victim s) := False),
                    page_valid :=
                      (if dirty s (pte (victim s))
                       then (page_valid s)(upage (victim s) := False) else page_valid s),
                    page_swap_idx :=
                      (if dirty s (pte (victim s))
                       then (page_swap_idx s)(upage (victim s) := length (swap s))
                       else page_swap_idx s),
                    swap :=
                      (if dirty s (pte (victim s)) then swap s @ [addr (victim s)]
                       else swap s)\<rparr>)"
proof -
  let ?j = "scan_stop s"
  note sp = scan_stop_props [OF assms(2)]
  note fc = first_clear_props [OF assms(2)]
  from scan_reaches [OF sp(2) sp(3) sp(4), of 0 "[]"]
  have sc: "evict_scan s = Some (?j, [0..<Suc ?j], scanned ?j s)"
    by (simp add: evict_scan_def scanned_0)
  then have fe: "frame_evict flags s = Inr (evict_victim flags ?j (scanned ?j s))"
    by (simp add: frame_evict_def)
  have ev: "evict_victim flags ?j (scanned ?j s)
      = (Some (addr (victim s)),
         (scanned ?j s)
         \<lparr>frame_table := list_remove ?j (frame_table s),
           palloc_log := palloc_log s
             @ [Free_page (addr (victim s)),
                Get_page (PAL_USER OR flags) (Some (addr (victim s)))],
           present := (present s)(pte (victim s) := False),
           page_valid :=
             (if dirty s (pte (victim s))
              then (page_valid s)(upage (victim s) := False) else page_valid s),
           page_swap_idx :=
             (if dirty s (pte (victim s))
              then (page_swap_idx s)(upage (victim s) := length (swap s))
              else page_swap_idx s),
           swap :=
             (if dirty s (pte (victim s)) then swap s @ [addr (victim s)]
              else swap s)\<rparr>)"
    by (cases "dirty s (pte (victim s))")
       (simp_all add: evict_victim_def evict_reclaim_def Let_def victim_def scanned_def
          pagedir_is_dirty_def swap_out_def page_set_swapped_def pagedir_clear_page_def
          palloc_free_page_def palloc_get_page_def pte_def)
  have "length [0..<Suc ?j] \<le> length (frame_table s)" using sp(2) by simp
  with sp(1) fc(1) sp(5) sc sp(2) fe ev show ?thesis
    by (simp add: length_list_remove)
qed

text \<open>
  The scenario of the specification: the second frame, dirty and not accessed, is evicted
  and written to swap slot 0; the allocator is given its page and asked for one.
\<close>

theorem frame_evict_clock_progress_witness:
  "frame_table vm3 \<noteq> [] \<and> \<not> accessed vm3 (pte (F 2)) \<and> F 2 \<in> set (frame_table vm3)
   \<and> distinct (map pte (frame_table vm3)) \<and> scan_stop vm3 = 1 \<and> first_clear vm3 = 1
   \<and> evict_scan vm3 = Some (1, [0, 1], scanned 1 vm3)
   \<and> (\<exists>s'. frame_evict 0 vm3 = Inr (Some 102, s') \<and> frame_table s' = [F 1, F 3]
         \<and> palloc_log s' = [Free_page 102, Get_page 4 (Some 102)]
         \<and> swap s' = [102] \<and> \<not> page_valid s' 12 \<and> \<not> present s' (1, 12) \<and> pool s' = [])"
proof -
  have h1: "frame_table vm3 \<noteq> []" by (simp add: vm3_def vm_of_def)
  have h2: "\<not> accessed vm3 (pte (F 2))" "F 2 \<in> set (frame_table vm3)"
    by (simp_all add: vm3_def vm_of_def F_def pte_def)
  then have h2': "\<exists>f\<in>set (frame_table vm3). \<not> accessed vm3 (pte f)" by blast
  have h3: "distinct (map pte (frame_table vm3))"
    by (simp add: vm3_def vm_of_def F_def pte_def)
  have fc: "first_clear vm3 = 1"
    by (simp add: first_clear_def vm3_def vm_of_def F_def pte_def)
  have v: "victim vm3 = F 2" "list_remove 1 (frame_table vm3) = [F 1, F 3]"
    "pool vm3 = []" "addr (F 2) = 102" "upage (F 2) = 12" "pte (F 2) = (1, 12)"
    "dirty vm3 (1, 12)" "swap vm3 = []" "palloc_log vm3 = []" "PAL_USER OR 0 = (4::nat)"
    using frame_evict_clock_progress [OF h1 h2', of 0] h3 fc
    by (simp_all add: victim_def vm3_def vm_of_def list_remove_def F_def pte_def PAL_USER_def)
  from frame_evict_clock_progress [OF h1 h2', of 0] h3 fc
  have "scan_stop vm3 = 1" by simp
  with frame_evict_clock_progress [OF h1 h2', of 0] h1 h2 h3 fc v show ?thesis
    by (simp add: upt_conv_Cons)
qed

text \<open>
  Claim C2 as stated fails on \<open>vm_shared\<close>, the frame table that three allocations, two
  of them for user page 10, leave: the first frame whose accessed bit is clear is the
  third, and the call evicts the second, whose bit the scan cleared at the first.
\<close>

theorem frame_evict_shared_entry_counterexample:
  "map_sum id frame_table
     (apply_ops [Alloc 10 0, Alloc 10 0, Alloc 12 0] (vm_of [] [100, 101, 102] [(1, 10)] []))
     = Inr (frame_table vm_shared)
   \<and> first_clear vm_shared = 2
   \<and> map_sum id fst (frame_evict 0 vm_shared) = Inr (Some 101)
   \<and> map addr (frame_table (snd (projr (frame_evict 0 vm_shared)))) = [100, 102]"
  by (simp add: vm_shared_def first_clear_def frame_alloc_def frame_push_def frame_eval)




text \<open>
  Claim C9: from a state in which no page is handed out twice, after any run of
  \<^verbatim>\<open>frame_alloc\<close>, \<^verbatim>\<open>frame_free\<close> and \<^verbatim>\<open>frame_evict\<close> calls no physical address is in
  two frames of the table.
\<close>

theorem frame_exclusivity:
  "frame_inv s \<Longrightarrow> apply_ops xs s = Inr s' \<Longrightarrow> distinct (map addr (frame_table s'))"
  using apply_ops_inv [of s xs s'] by (simp add: frame_inv_def)

text \<open>
  Two free pages and three allocations, the third by eviction, then a release and a
  fourth allocation.
\<close>

theorem frame_exclusivity_witness:
  "frame_inv (vm_of [] [1, 2] [] [])
   \<and> (\<exists>s'. apply_ops [Alloc 11 0, Alloc 12 0, Alloc 13 0, Free 2, Alloc 14 0]
              (vm_of [] [1, 2] [] []) = Inr s'
         \<and> map addr (frame_table s') = [1, 2] \<and> distinct (map addr (frame_table s')))"
proof -
  have i: "frame_inv (vm_of [] [1, 2] [] [])" by (simp add: frame_inv_def vm_of_def)
  have r: "isl (apply_ops [Alloc 11 0, Alloc 12 0, Alloc 13 0, Free 2, Alloc 14 0]
              (vm_of [] [1, 2] [] [])) = False"
   "map addr (frame_table (projr (apply_ops [Alloc 11 0, Alloc 12 0, Alloc 13 0, Free 2, Alloc 14 0]
              (vm_of [] [1, 2] [] [])))) = [1, 2]"
    by (simp_all add: frame_alloc_def frame_push_def frame_free_def frame_eval)
  then obtain s' where s': "apply_ops [Alloc 11 0, Alloc 12 0, Alloc 13 0, Free 2, Alloc 14 0]
              (vm_of [] [1, 2] [] []) = Inr s'"
    by (cases "apply_ops [Alloc 11 0, Alloc 12 0, Alloc 13 0, Free 2, Alloc 14 0]
              (vm_of [] [1, 2] [] [])") auto
  from frame_exclusivity [OF i s'] r s' show ?thesis using i by auto
qed

section \<open>Properties of the namespace operations\<close>

subsection \<open>References taken and given back\<close>

lemma inode_close_reopen [simp]: "inode_close a (inode_reopen a s) = s"
proof -
  have "(inodes s)(a := inodes s a) = inodes s" by (rule fun_upd_triv)
  moreover have
    "map_option (\<lambda>i. i\<lparr>open_cnt := open_cnt i - 1\<rparr>)
       (map_option (\<lambda>i. i\<lparr>open_cnt := open_cnt i + 1\<rparr>) (inodes s a)) = inodes s a"
    by (cases "inodes s a") simp_all
  ultimately show ?thesis by (simp add: inode_close_def inode_reopen_def)
qed

lemma inode_reopen_fields [simp]:
  "free_map (inode_reopen a s) = free_map s" "cwd (inode_reopen a s) = cwd s"
  by (simp_all add: inode_reopen_def)

lemma inode_reopen_other: "x \<noteq> a \<Longrightarrow> inodes (inode_reopen a s) x = inodes s x"
  by (simp add: inode_reopen_def)

lemma inode_reopen_same:
  "inodes s a = Some i \<Longrightarrow> inodes (inode_reopen a s) a = Some (i\<lparr>open_cnt := open_cnt i + 1\<rparr>)"
  by (simp add: inode_reopen_def)

lemma dir_entries_reopen [simp]: "dir_entries d (inode_reopen a s) = dir_entries d s"
  by (cases "inodes s a") (auto simp: dir_entries_def inode_reopen_def)

lemma inode_is_dir_reopen [simp]: "inode_is_dir d (inode_reopen a s) = inode_is_dir d s"
  by (cases "inodes s a") (auto simp: inode_is_dir_def inode_reopen_def)

lemma inode_open_cnt_reopen:
  "inodes s a = Some i \<Longrightarrow> inode_open_cnt a (inode_reopen a s) = inode_open_cnt a s + 1"
  by (simp add: inode_open_cnt_def inode_reopen_def)

lemma inode_open_cnt_reopen_other:
  "x \<noteq> a \<Longrightarrow> inode_open_cnt x (inode_reopen a s) = inode_open_cnt x s"
  by (simp add: inode_open_cnt_def inode_reopen_def)

lemma resolve_parent_Some:
  "resolve_parent path s = (Some d, s1) \<Longrightarrow> s1 = inode_reopen d s"
  by (auto simp: resolve_parent_def dir_reopen_def dir_open_def dir_parse_def
      split: option.splits)

lemma resolve_parent_None:
  "resolve_parent path s = (None, s1) \<Longrightarrow> s1 = s"
  by (auto simp: resolve_parent_def dir_reopen_def dir_open_def dir_parse_def
      split: option.splits)

lemma dir_lookup_found:
  "map_of (dir_entries p s) fn = Some t \<Longrightarrow> dir_lookup p fn s = (Some t, inode_reopen t s)"
  by (simp add: dir_lookup_def)

lemma dir_lookup_absent:
  "map_of (dir_entries p s) fn = None \<Longrightarrow> dir_lookup p fn s = (None, s)"
  by (simp add: dir_lookup_def)

lemma inode_reopen_commute:
  "inode_reopen a (inode_reopen b s) = inode_reopen b (inode_reopen a s)"
proof (cases "a = b")
  case True
  then show ?thesis by simp
next
  case False
  then show ?thesis by (simp add: inode_reopen_def fun_upd_twist)
qed

lemma close_reopen_other [simp]:
  "inode_close a (inode_reopen b (inode_reopen a s)) = inode_reopen b s"
  using inode_reopen_commute [of b a s] by simp



lemma layout_reopen [simp]: "layout (inode_reopen a s) = layout s"
  by (cases "inodes s a") (auto simp: layout_def inode_reopen_def fun_eq_iff)

lemma layout_close [simp]: "layout (inode_close a s) = layout s"
  by (cases "inodes s a") (auto simp: layout_def inode_close_def fun_eq_iff)

lemma dir_entries_close [simp]: "dir_entries d (inode_close a s) = dir_entries d s"
  by (cases "inodes s a") (auto simp: dir_entries_def inode_close_def)

subsection \<open>Resolution after a create\<close>

lemma walk_extends:
  "extends ino ino' \<Longrightarrow> walk ino a cs = Some p \<Longrightarrow> walk ino' a cs = Some p"
proof (induction cs arbitrary: a)
  case Nil
  then show ?case
    by (fastforce simp: extends_def split: option.splits if_splits)
next
  case (Cons c cs)
  from Cons.prems(2) obtain i t where a: "ino a = Some i" "is_dir i"
    "map_of (entries i) c = Some t" "walk ino t cs = Some p"
    by (auto split: option.splits if_splits)
  from Cons.prems(1) a obtain i' where a': "ino' a = Some i'" "is_dir i'"
    "map_of (entries i') c = Some t"
    unfolding extends_def by blast
  from Cons.IH [OF Cons.prems(1) a(4)] a' show ?case by simp
qed

lemma resolve_extends:
  assumes "extends (inodes s) (inodes s')" "cwd s' = cwd s"
    and "resolve_parent path s = (Some p, s1)"
  shows "resolve_parent path s' = (Some p, inode_reopen p s')"
proof (cases path)
  case None
  with assms show ?thesis
    by (auto simp: resolve_parent_def dir_reopen_def dir_open_def)
next
  case (Some pa)
  let ?start = "if pa \<noteq> [] \<and> is_sep (hd pa) then ROOT_DIR_SECTOR else cwd s"
  from Some assms(3) have "walk (inodes s) ?start (split_path [] pa) = Some p"
    by (auto simp: resolve_parent_def dir_parse_def dir_open_def split: option.splits)
  from walk_extends [OF assms(1) this]
  have "walk (inodes s') ?start (split_path [] pa) = Some p" .
  then have "dir_parse pa s' = (Some p, inode_reopen p s')"
    unfolding dir_parse_def assms(2) by (simp only: option.case dir_open_def)
  with Some show ?thesis by (simp add: resolve_parent_def)
qed

lemma create_existing:
  assumes split: "dir_path_and_name nm = Some (path, fn)"
    and res: "resolve_parent path s = (Some p, s1)"
    and present: "map_of (dir_entries p s) fn = Some t"
  shows "filesys_create (Some nm) sz isd s = Inr (False, s)"
    and "fn \<noteq> [] \<Longrightarrow> filesys_open (Some nm) s = Inr (Some t, inode_reopen t s)"
proof -
  from res have s1: "s1 = inode_reopen p s" by (rule resolve_parent_Some)
  have look: "dir_lookup p fn s1 = (Some t, inode_reopen t (inode_reopen p s))"
    using present s1 by (simp add: dir_lookup_found)
  show "filesys_create (Some nm) sz isd s = Inr (False, s)"
    using split res look by (simp add: filesys_create_def dir_close_def)
  show "filesys_open (Some nm) s = Inr (Some t, inode_reopen t s)" if "fn \<noteq> []"
    using that split res look by (simp add: filesys_open_def dir_close_def file_open_def)
qed

lemma create_success:
  assumes ok: "free_ok s"
    and cr: "filesys_create (Some nm) sz isd s = Inr (True, s')"
  shows "\<exists>path fn p s1. dir_path_and_name nm = Some (path, fn) \<and> fn \<noteq> []
           \<and> resolve_parent path s = (Some p, s1)
           \<and> map_of (dir_entries p s') fn = Some (hd (free_map s))
           \<and> extends (inodes s) (inodes s') \<and> cwd s' = cwd s"
proof -
  from cr obtain path fn where split: "dir_path_and_name nm = Some (path, fn)"
    by (cases "dir_path_and_name nm") (auto simp: filesys_create_def)
  from cr split obtain p s1 where res: "resolve_parent path s = (Some p, s1)"
    by (cases "resolve_parent path s") (auto simp: filesys_create_def split: option.splits)
  then have s1: "s1 = inode_reopen p s" by (rule resolve_parent_Some)
  from cr split res have look: "dir_lookup p fn s1 = (None, s1)"
    by (cases "dir_lookup p fn s1")
       (auto simp: filesys_create_def dir_lookup_def split: option.splits)
  from cr split res look obtain sector s3 where
    alloc: "free_map_allocate 1 s1 = (Some sector, s3)"
    by (cases "free_map_allocate 1 s1") (auto simp: filesys_create_def split: option.splits)
  then obtain rest where fm: "free_map s = sector # rest" and s3: "s3 = s1\<lparr>free_map := rest\<rparr>"
    using s1 by (cases "free_map s") (auto simp: free_map_allocate_def split: if_splits)
  obtain created s4 where init: "(if isd then dir_create sector 0 s3
      else inode_create sector sz False s3) = (created, s4)"
    by (cases "if isd then dir_create sector 0 s3 else inode_create sector sz False s3")
  obtain added s5 where link: "dir_add p fn sector s4 = (added, s5)"
    by (cases "dir_add p fn sector s4")
  from cr split res look alloc init link
  have fin: "created" "added" "s' = dir_close p s5"
    by (auto simp: filesys_create_def)
  from init fin(1) obtain n new where s4: "s4 = s3\<lparr>inodes := (inodes s3)(sector \<mapsto> new),
      free_map := drop n (free_map s3)\<rparr>" and new: "entries new = []" "is_dir new = isd"
    by (auto simp: dir_create_def inode_create_def Let_def split: if_splits)
  from link fin(2) obtain d4 where d4: "inodes s4 p = Some d4" "fn \<noteq> []"
    "map_of (entries d4) fn = None"
    and s5: "s5 = s4\<lparr>inodes := (inodes s4)(p \<mapsto> d4\<lparr>entries := entries d4 @ [(fn, sector)]\<rparr>)\<rparr>"
    by (auto simp: dir_add_def split: option.splits if_splits)
  have ino': "inodes s' = (inodes s4)
      (p \<mapsto> d4\<lparr>entries := entries d4 @ [(fn, sector)], open_cnt := open_cnt d4 - 1\<rparr>)"
    using fin(3) s5 by (simp add: dir_close_def inode_close_def)
  have ent: "map_of (dir_entries p s') fn = Some (hd (free_map s))"
    using ino' d4 fm by (simp add: dir_entries_def map_add_def)
  have free: "inodes s sector = None"
    using ok fm by (simp add: free_ok_def)
  have ext: "extends (inodes s) (inodes s')"
    unfolding extends_def
  proof (intro allI impI)
    fix x i assume x: "inodes s x = Some i"
    with free have xs: "x \<noteq> sector" by auto
    show "\<exists>i'. inodes s' x = Some i' \<and> is_dir i' = is_dir i
           \<and> (\<forall>c t. map_of (entries i) c = Some t \<longrightarrow> map_of (entries i') c = Some t)"
    proof (cases "x = p")
      case True
      with x xs d4(1) have "d4 = i\<lparr>open_cnt := open_cnt i + 1\<rparr>"
        using s4 s3 s1 by (simp add: inode_reopen_def)
      with True ino' show ?thesis by auto
    next
      case False
      with x xs have "inodes s' x = Some i"
        using ino' s4 s3 s1 by (simp add: inode_reopen_def)
      then show ?thesis by simp
    qed
  qed
  have "cwd s' = cwd s"
    using fin(3) s5 s4 s3 s1 by (simp add: dir_close_def inode_close_def)
  with split d4(2) res ent ext show ?thesis by blast
qed

subsection \<open>Evaluation on concrete states\<close>

lemmas fs_eval =
  filesys_create_def filesys_open_def filesys_remove_def remove_found_def
  remove_directory_def resolve_parent_def dir_parse_def dir_path_and_name_def is_sep_def
  dir_open_def dir_reopen_def dir_close_def dir_get_inode_def dir_entries_def
  dir_lookup_def dir_add_def dir_remove_def dir_empty_def dir_create_def
  free_map_allocate_def inode_create_def inode_reopen_def inode_close_def
  inode_is_dir_def inode_open_cnt_def file_open_def ROOT_DIR_SECTOR_def
  DISK_SECTOR_SIZE_def fs_root_def

subsection \<open>The claims on the namespace operations\<close>

text \<open>
  Claim C4, at the root: \<^verbatim>\<open>filesys_remove\<close> of \<open>/\<close> returns false at once, and the
  reference that the resolution took on the root directory is not given back: the open
  count of the root is one more than before the call.
\<close>

theorem filesys_remove_root_keeps_reference:
  "filesys_remove (Some ''/'') fs_root = Inr (False, inode_reopen ROOT_DIR_SECTOR fs_root)
   \<and> inode_open_cnt ROOT_DIR_SECTOR fs_root = 1
   \<and> inode_open_cnt ROOT_DIR_SECTOR (inode_reopen ROOT_DIR_SECTOR fs_root) = 2"
  by (simp add: fs_eval)




text \<open>
  Claim C6: when the parent resolves, the leaf is absent, a sector is allocated and the
  object is initialized, but the link into the parent fails, \<^verbatim>\<open>filesys_create\<close> returns
  false; the sector, free before, is not back in the free map, the object written to it
  is still there, and the parent has no entry for the leaf.
\<close>

theorem filesys_create_link_failure_leaks:
  assumes split: "dir_path_and_name nm = Some (path, fn)"
    and res: "resolve_parent path s = (Some p, s1)"
    and fresh: "dir_lookup p fn s1 = (None, s2)"
    and alloc: "free_map_allocate 1 s2 = (Some sector, s3)"
    and init: "(if isd then dir_create sector 0 s3
                else inode_create sector initial_size False s3) = (True, s4)"
    and link: "dir_add p fn sector s4 = (False, s5)"
    and wf: "distinct (free_map s)"
  shows "filesys_create (Some nm) initial_size isd s = Inr (False, dir_close p s5)
       \<and> sector \<in> set (free_map s)
       \<and> sector \<notin> set (free_map (dir_close p s5))
       \<and> inodes (dir_close p s5) sector \<noteq> None
       \<and> map_of (dir_entries p (dir_close p s5)) fn = None"
proof -
  from res have s1: "s1 = inode_reopen p s" by (rule resolve_parent_Some)
  from fresh have s2: "s2 = s1" and absent: "map_of (dir_entries p s1) fn = None"
    by (auto simp: dir_lookup_def split: option.splits)
  from alloc s2 s1 obtain rest where fm: "free_map s = sector # rest"
    and s3: "s3 = s1\<lparr>free_map := rest\<rparr>"
    by (cases "free_map s") (auto simp: free_map_allocate_def split: if_splits)
  from init obtain n where s4: "s4 = s3\<lparr>inodes := (inodes s3)(sector \<mapsto>
        \<lparr>open_cnt = 0, is_dir = isd, entries = [],
         len = (if isd then 0 else initial_size)\<rparr>), free_map := drop n (free_map s3)\<rparr>"
    by (auto simp: dir_create_def inode_create_def Let_def split: if_splits)
  from link have s5: "s5 = s4"
    by (auto simp: dir_add_def split: option.splits if_splits)
  have r: "filesys_create (Some nm) initial_size isd s = Inr (False, dir_close p s5)"
    using split res fresh alloc init link by (simp add: filesys_create_def)
  have "set (drop n rest) \<subseteq> set rest" by (rule set_drop_subset)
  with wf fm have nf: "sector \<notin> set (free_map (dir_close p s5))"
    using s5 s4 s3 by (auto simp: dir_close_def inode_close_def)
  have ex: "inodes (dir_close p s5) sector \<noteq> None"
    using s5 s4 by (simp add: dir_close_def inode_close_def)
  have "map_of (dir_entries p s5) fn = None"
  proof (cases "p = sector")
    case True
    then show ?thesis using s5 s4 by (simp add: dir_entries_def)
  next
    case False
    then have "dir_entries p s5 = dir_entries p s1"
      using s5 s4 s3 by (simp add: dir_entries_def)
    with absent show ?thesis by simp
  qed
  moreover have "dir_entries p (dir_close p s5) = dir_entries p s5"
    by (cases "inodes s5 p") (auto simp: dir_entries_def dir_close_def inode_close_def)
  ultimately show ?thesis using r fm nf ex by simp
qed

text \<open>
  Creating \<open>/\<close>: the leaf is empty, sector 2 is allocated and initialized as a
  directory, and the link fails.
\<close>

theorem filesys_create_link_failure_leaks_witness:
  "filesys_create (Some ''/'') 0 True fs_root
     = Inr (False, dir_close ROOT_DIR_SECTOR
         (snd (dir_create 2 0 (snd (free_map_allocate 1 (inode_reopen ROOT_DIR_SECTOR fs_root))))))
   \<and> 2 \<in> set (free_map fs_root)
   \<and> 2 \<notin> set (free_map (dir_close ROOT_DIR_SECTOR
         (snd (dir_create 2 0 (snd (free_map_allocate 1 (inode_reopen ROOT_DIR_SECTOR fs_root)))))))
   \<and> inodes (dir_close ROOT_DIR_SECTOR
         (snd (dir_create 2 0 (snd (free_map_allocate 1 (inode_reopen ROOT_DIR_SECTOR fs_root))))))
        2 \<noteq> None"
proof -
  let ?s1 = "inode_reopen ROOT_DIR_SECTOR fs_root"
  let ?s3 = "snd (free_map_allocate 1 ?s1)"
  let ?s4 = "snd (dir_create 2 0 ?s3)"
  have split: "dir_path_and_name ''/'' = Some (Some ''/'', [])"
    by (simp add: dir_path_and_name_def is_sep_def)
  have res: "resolve_parent (Some ''/'') fs_root = (Some ROOT_DIR_SECTOR, ?s1)"
    by (simp add: resolve_parent_def dir_parse_def dir_open_def is_sep_def fs_root_def)
  have fresh: "dir_lookup ROOT_DIR_SECTOR [] ?s1 = (None, ?s1)"
    by (simp add: dir_lookup_def dir_entries_def fs_root_def inode_reopen_def)
  have alloc: "free_map_allocate 1 ?s1 = (Some 2, ?s3)"
    by (simp add: free_map_allocate_def fs_root_def inode_reopen_def)
  have init: "(if True then dir_create 2 0 ?s3 else inode_create 2 0 False ?s3) = (True, ?s4)"
    by (simp add: dir_create_def inode_create_def Let_def free_map_allocate_def
        fs_root_def inode_reopen_def DISK_SECTOR_SIZE_def)
  have link: "dir_add ROOT_DIR_SECTOR [] 2 ?s4 = (False, ?s4)"
    by (simp add: dir_add_def split: option.splits)
  have wf: "distinct (free_map fs_root)" by (simp add: fs_root_def)
  from filesys_create_link_failure_leaks [OF split res fresh alloc init link wf]
  show ?thesis by simp
qed

text \<open>
  Claim C7: when the leaf is present in the resolved parent, \<^verbatim>\<open>filesys_create\<close> returns
  false and leaves the state as it was (the reference of the lookup is given back and the
  object found is unchanged), and \<^verbatim>\<open>filesys_open\<close> of the same name returns that object.
  In particular, after a create that succeeded on a state whose free sectors hold no
  object, a second create of the same name returns false, changes nothing, and open
  returns the object created first.
\<close>

theorem filesys_create_existing_fails:
  "(dir_path_and_name nm = Some (path, fn) \<and> fn \<noteq> []
      \<and> resolve_parent path s = (Some p, s1) \<and> map_of (dir_entries p s) fn = Some t
    \<longrightarrow> filesys_create (Some nm) sz isd s = Inr (False, s)
        \<and> filesys_open (Some nm) s = Inr (Some t, inode_reopen t s))
   \<and> (free_ok s \<and> filesys_create (Some nm) sz isd s = Inr (True, s')
    \<longrightarrow> filesys_create (Some nm) sz' isd' s' = Inr (False, s')
        \<and> filesys_open (Some nm) s'
            = Inr (Some (hd (free_map s)), inode_reopen (hd (free_map s)) s'))"
proof (rule conjI; rule impI)
  assume a: "dir_path_and_name nm = Some (path, fn) \<and> fn \<noteq> []
      \<and> resolve_parent path s = (Some p, s1) \<and> map_of (dir_entries p s) fn = Some t"
  then have h: "dir_path_and_name nm = Some (path, fn)" "fn \<noteq> []"
    "resolve_parent path s = (Some p, s1)" "map_of (dir_entries p s) fn = Some t"
    by simp_all
  from create_existing [OF h(1) h(3) h(4)] h(2)
  show "filesys_create (Some nm) sz isd s = Inr (False, s)
        \<and> filesys_open (Some nm) s = Inr (Some t, inode_reopen t s)"
    by simp
next
  assume b: "free_ok s \<and> filesys_create (Some nm) sz isd s = Inr (True, s')"
  then obtain path' fn' p' s1' where split: "dir_path_and_name nm = Some (path', fn')"
    and leaf: "fn' \<noteq> []" and res: "resolve_parent path' s = (Some p', s1')"
    and ent: "map_of (dir_entries p' s') fn' = Some (hd (free_map s))"
    and ext: "extends (inodes s) (inodes s')" and cw: "cwd s' = cwd s"
    using create_success [of s nm sz isd s'] by blast
  from resolve_extends [OF ext cw res]
  have res': "resolve_parent path' s' = (Some p', inode_reopen p' s')" .
  from create_existing [OF split res' ent] leaf
  show "filesys_create (Some nm) sz' isd' s' = Inr (False, s')
        \<and> filesys_open (Some nm) s'
            = Inr (Some (hd (free_map s)), inode_reopen (hd (free_map s)) s')"
    by simp
qed

text \<open>
  A create over the entry \<open>d\<close>, and \<open>/a\<close> created twice on a formatted file system.
\<close>

theorem filesys_create_existing_fails_witness:
  "filesys_create (Some ''d'') 0 False (fs_dir 0) = Inr (False, fs_dir 0)
   \<and> filesys_open (Some ''d'') (fs_dir 0) = Inr (Some 2, inode_reopen 2 (fs_dir 0))
   \<and> fst (projr (filesys_create (Some ''/a'') 0 True fs_root))
   \<and> fst (projr (filesys_create (Some ''/a'') 7 False
                    (snd (projr (filesys_create (Some ''/a'') 0 True fs_root))))) = False
   \<and> fst (projr (filesys_open (Some ''/a'')
                    (snd (projr (filesys_create (Some ''/a'') 0 True fs_root))))) = Some 2"
proof -
  let ?r = "filesys_create (Some ''/a'') 0 True fs_root"
  have split: "dir_path_and_name ''d'' = Some (None, ''d'')" and leaf: "''d'' \<noteq> []"
    by (simp_all add: dir_path_and_name_def is_sep_def)
  have res: "resolve_parent None (fs_dir 0)
      = (Some ROOT_DIR_SECTOR, inode_reopen ROOT_DIR_SECTOR (fs_dir 0))"
    by (simp add: resolve_parent_def dir_reopen_def dir_open_def fs_dir_def)
  have present: "map_of (dir_entries ROOT_DIR_SECTOR (fs_dir 0)) ''d'' = Some 2"
    by (simp add: dir_entries_def fs_dir_def ROOT_DIR_SECTOR_def)
  have ok: "free_ok fs_root"
    by (simp add: free_ok_def fs_root_def ROOT_DIR_SECTOR_def)
  have fr: "\<not> isl ?r" "fst (projr ?r)"
    by (simp_all add: fs_eval)
  then have cr: "?r = Inr (True, snd (projr ?r))"
    by (cases ?r) auto
  have hd: "hd (free_map fs_root) = 2" by (simp add: fs_root_def)
  from filesys_create_existing_fails [where nm = "''d''" and path = None and fn = "''d''"
      and s = "fs_dir 0" and p = ROOT_DIR_SECTOR
      and ?s1.0 = "inode_reopen ROOT_DIR_SECTOR (fs_dir 0)" and t = 2 and sz = 0
      and isd = False]
    split leaf res present
  have a: "filesys_create (Some ''d'') 0 False (fs_dir 0) = Inr (False, fs_dir 0)
      \<and> filesys_open (Some ''d'') (fs_dir 0) = Inr (Some 2, inode_reopen 2 (fs_dir 0))"
    by simp
  from filesys_create_existing_fails [where nm = "''/a''" and s = fs_root and sz = 0
      and isd = True and s' = "snd (projr ?r)" and sz' = 7 and isd' = False] ok cr hd
  have b: "filesys_create (Some ''/a'') 7 False (snd (projr ?r)) = Inr (False, snd (projr ?r))
      \<and> filesys_open (Some ''/a'') (snd (projr ?r))
          = Inr (Some 2, inode_reopen 2 (snd (projr ?r)))"
    by simp
  from a b fr(2) show ?thesis by simp
qed

text \<open>
  Claim C8, on a formatted file system: \<^verbatim>\<open>filesys_remove\<close> of a name that the working
  directory does not hold does not return false; the null inode of the failed lookup
  reaches \<^verbatim>\<open>inode_is_dir\<close>.
\<close>

theorem filesys_remove_absent_leaf_faults:
  "filesys_remove (Some ''nosuch'') fs_root = Inl Null_inode"
  by (simp add: fs_eval)

text \<open>
  Claim C10: when the path resolves to a directory and the leaf is empty,
  \<^verbatim>\<open>filesys_open\<close> returns a handle on the directory's own object and the state is the
  one the resolution left: the directory's open count is one more than before the call,
  and nothing else has changed.
\<close>

theorem filesys_open_directory_itself:
  assumes "dir_path_and_name nm = Some (path, [])"
    and "resolve_parent path s = (Some d, s1)"
    and "inodes s d \<noteq> None"
  shows "filesys_open (Some nm) s = Inr (Some d, inode_reopen d s)
         \<and> inode_open_cnt d (inode_reopen d s) = inode_open_cnt d s + 1"
proof -
  from assms(2) have "s1 = inode_reopen d s" by (rule resolve_parent_Some)
  with assms(1,2) have "filesys_open (Some nm) s = Inr (Some d, inode_reopen d s)"
    by (simp add: filesys_open_def file_open_def dir_get_inode_def)
  moreover from assms(3) have "inode_open_cnt d (inode_reopen d s) = inode_open_cnt d s + 1"
    by (auto simp: inode_open_cnt_reopen)
  ultimately show ?thesis by simp
qed

text \<open>Opening \<open>/\<close> on a formatted file system.\<close>

theorem filesys_open_directory_itself_witness:
  "dir_path_and_name ''/'' = Some (Some ''/'', [])
   \<and> resolve_parent (Some ''/'') fs_root = (Some ROOT_DIR_SECTOR, inode_reopen ROOT_DIR_SECTOR fs_root)
   \<and> inodes fs_root ROOT_DIR_SECTOR \<noteq> None
   \<and> filesys_open (Some ''/'') fs_root = Inr (Some ROOT_DIR_SECTOR, inode_reopen ROOT_DIR_SECTOR fs_root)
   \<and> inode_open_cnt ROOT_DIR_SECTOR fs_root = 1
   \<and> inode_open_cnt ROOT_DIR_SECTOR (inode_reopen ROOT_DIR_SECTOR fs_root) = 2"
proof -
  have h1: "dir_path_and_name ''/'' = Some (Some ''/'', [])"
    by (simp add: dir_path_and_name_def is_sep_def)
  have h2: "resolve_parent (Some ''/'') fs_root
      = (Some ROOT_DIR_SECTOR, inode_reopen ROOT_DIR_SECTOR fs_root)"
    by (simp add: resolve_parent_def dir_parse_def dir_open_def is_sep_def fs_root_def)
  have h3: "inodes fs_root ROOT_DIR_SECTOR \<noteq> None" by (simp add: fs_root_def)
  have c: "inode_open_cnt ROOT_DIR_SECTOR fs_root = 1"
    by (simp add: inode_open_cnt_def fs_root_def)
  from filesys_open_directory_itself [OF h1 h2 h3] h1 h2 h3 c show ?thesis by simp
qed

end
